theory Spec2Isabelle
  imports Main "HOL-Library.Word"
begin

unbundle bit_operations_syntax

section \<open>Data model of malloc.c\<close>

text \<open>
  The embedding follows \<^verbatim>\<open>src/malloc.c\<close> on an LP64 target: \<^verbatim>\<open>size_t\<close> is a 64-bit
  word, \<^verbatim>\<open>int\<close> has 32 bits and \<^verbatim>\<open>sizeof(struct block)\<close> is 24.

  An address is either a byte address of the data segment (\<open>Arena\<close>) or a byte offset in
  the activation record of \<^verbatim>\<open>malloc\<close> (\<open>Frame\<close>), where the automatic variable
  \<^verbatim>\<open>temp\<close> sits at offset 0. A pointer is an optional address, \<open>None\<close> being
  \<^verbatim>\<open>NULL\<close>.
\<close>

type_synonym size_t = "64 word"

datatype addr = Arena size_t | Frame size_t

type_synonym ptr = "addr option"

record block =
  size_b :: size_t
  next_b :: ptr
  free_b :: bool
  dirty_b :: bool

text \<open>
  What ends a call other than a return: a failed \<^verbatim>\<open>assert\<close> (the process aborts), or
  undefined behaviour (a read or write through a pointer to no live block header).
\<close>

datatype error = AssertFail | UB

datatype policy = FirstFit | BestFit | WorstFit | NextFit

text \<open>
  The global variables of the file, the store of live block headers (\<open>mem\<close>), and the
  state of the operating system that \<^verbatim>\<open>sbrk\<close> reads and writes: the program break
  and the highest break the system grants.

  The \<^verbatim>\<open>int\<close> counters are kept as mathematical integers. An increment \<^verbatim>\<open>c++\<close> is
  \<open>c + 1\<close>: signed overflow has no defined behaviour in C, so the model follows the
  program only on the runs in which no counter is incremented at \<^verbatim>\<open>INT_MAX\<close>, and a
  statement about the counters' values carries that bound as a hypothesis. Where the
  source mixes \<^verbatim>\<open>int\<close> and \<^verbatim>\<open>size_t\<close> the conversions are written out.
\<close>

record heap_state =
  mem :: "addr \<rightharpoonup> block"
  FreeList :: ptr
  Final :: ptr
  atexit_registered :: int
  num_mallocs :: int
  num_frees :: int
  num_reuses :: int
  num_grows :: int
  num_splits :: int
  num_coalesces :: int
  num_blocks :: int
  num_requested :: int
  max_heap :: int
  brk :: size_t
  brk_max :: size_t

type_synonym 'a res = "(error + 'a) option"

text \<open>
  A call yields \<open>None\<close> when it does not return (a loop that runs forever on a cyclic
  chain), \<open>Some (Inl e)\<close> when it ends in the error \<open>e\<close>, and \<open>Some (Inr v)\<close> when it
  returns \<open>v\<close>.
\<close>

definition bind_res :: "'a res \<Rightarrow> ('a \<Rightarrow> 'b res) \<Rightarrow> 'b res" where
  "bind_res r f = (case r of None \<Rightarrow> None | Some (Inl e) \<Rightarrow> Some (Inl e) | Some (Inr x) \<Rightarrow> f x)"

section \<open>Macros and conversions\<close>

text \<open>\<^verbatim>\<open>#define ALIGN4(s) (((((s)-1) >> 2) << 2) + 4)\<close> on \<^verbatim>\<open>size_t\<close>.\<close>

definition ALIGN4 :: "size_t \<Rightarrow> size_t" where
  "ALIGN4 s = push_bit 2 (drop_bit 2 (s - 1)) + 4"

definition sizeof_block :: size_t where
  "sizeof_block = 24"

text \<open>\<^verbatim>\<open>BLOCK_DATA(b) ((b) + 1)\<close> and \<^verbatim>\<open>BLOCK_HEADER(ptr) ((struct block *)(ptr)-1)\<close>.\<close>

fun BLOCK_DATA :: "addr \<Rightarrow> addr" where
  "BLOCK_DATA (Arena a) = Arena (a + sizeof_block)"
| "BLOCK_DATA (Frame a) = Frame (a + sizeof_block)"

fun BLOCK_HEADER :: "addr \<Rightarrow> addr" where
  "BLOCK_HEADER (Arena a) = Arena (a - sizeof_block)"
| "BLOCK_HEADER (Frame a) = Frame (a - sizeof_block)"

text \<open>
  Conversion of a \<^verbatim>\<open>size_t\<close> to \<^verbatim>\<open>int\<close> (reduced modulo \<open>2 ^ 32\<close>, as gcc defines it)
  and of an \<^verbatim>\<open>int\<close> to \<^verbatim>\<open>size_t\<close> (modulo \<open>2 ^ 64\<close>).
\<close>

definition int_of_size_t :: "size_t \<Rightarrow> int" where
  "int_of_size_t w = sint (ucast w :: 32 word)"

definition size_t_of_int :: "int \<Rightarrow> size_t" where
  "size_t_of_int i = word_of_int i"

definition INT_MAX :: int where
  "INT_MAX = 2147483647"

text \<open>
  \<^verbatim>\<open>int abs(int)\<close>. For \<^verbatim>\<open>INT_MIN\<close> the result is not representable and C leaves it
  undefined; the library negates in two's complement and returns \<^verbatim>\<open>INT_MIN\<close>.
\<close>

definition abs_int :: "int \<Rightarrow> int" where
  "abs_int i = (if i = - INT_MAX - 1 then i else \<bar>i\<bar>)"

text \<open>The value returned by \<^verbatim>\<open>sbrk\<close>, cast to \<^verbatim>\<open>struct block *\<close>.\<close>

definition block_ptr :: "size_t \<Rightarrow> ptr" where
  "block_ptr w = (if w = 0 then None else Some (Arena w))"

section \<open>The operating system's break primitive\<close>

text \<open>
  \<^verbatim>\<open>sbrk(incr)\<close> takes a signed increment. It returns the previous break and moves the
  break by \<open>incr\<close>, or returns \<^verbatim>\<open>(void *) -1\<close> and leaves the break alone when the
  new break would leave the range the system grants. \<^verbatim>\<open>sbrk(0)\<close> reads the break.
\<close>

definition sbrk :: "size_t \<Rightarrow> heap_state \<Rightarrow> size_t \<times> heap_state" where
  "sbrk incr s =
     (let new = uint (brk s) + sint incr in
      if incr = 0 then (brk s, s)
      else if 0 \<le> new \<and> new \<le> uint (brk_max s) then (brk s, s\<lparr>brk := word_of_int new\<rparr>)
      else (- 1, s))"

section \<open>findFreeBlock\<close>

text \<open>
  Each \<^verbatim>\<open>while\<close> loop is a recursive function over the loop's variables. The loops only
  read the store. A chain that never reaches \<^verbatim>\<open>NULL\<close> makes them run forever.
\<close>

partial_function (option) first_fit_loop ::
  "(addr \<rightharpoonup> block) \<Rightarrow> size_t \<Rightarrow> ptr \<Rightarrow> ptr \<Rightarrow> int \<Rightarrow> (ptr \<times> ptr \<times> int) res"
where
  "first_fit_loop m sz currp lastp nb =
     (case currp of
        None \<Rightarrow> Some (Inr (currp, lastp, nb))
      | Some a \<Rightarrow>
          (case m a of
             None \<Rightarrow> Some (Inl UB)
           | Some b \<Rightarrow>
               if free_b b \<and> sz \<le> size_b b then Some (Inr (currp, lastp, nb))
               else first_fit_loop m sz (next_b b) currp (nb + 1)))"

partial_function (option) best_fit_loop ::
  "(addr \<rightharpoonup> block) \<Rightarrow> size_t \<Rightarrow> ptr \<Rightarrow> ptr \<Rightarrow> int \<Rightarrow> (ptr \<times> int) res"
where
  "best_fit_loop m sz currp best nb =
     (case currp of
        None \<Rightarrow> Some (Inr (best, nb))
      | Some a \<Rightarrow>
          (case m a of
             None \<Rightarrow> Some (Inl UB)
           | Some b \<Rightarrow>
               (case (if free_b b \<and> sz \<le> size_b b
                      then (case best of
                              None \<Rightarrow> Inr True
                            | Some ba \<Rightarrow>
                                (case m ba of
                                   None \<Rightarrow> Inl UB
                                 | Some bb \<Rightarrow> Inr (size_b b < size_b bb)))
                      else Inr False) of
                  Inl e \<Rightarrow> Some (Inl e)
                | Inr better \<Rightarrow>
                    if better then
                      (if size_b b = sz then Some (Inr (currp, nb + 1))
                       else best_fit_loop m sz (next_b b) currp (nb + 1))
                    else best_fit_loop m sz (next_b b) best (nb + 1))))"

text \<open>
  \<^verbatim>\<open>abs\<close> takes and returns an \<^verbatim>\<open>int\<close>: the difference of the two sizes is converted
  to \<^verbatim>\<open>int\<close>, and the absolute value back to \<^verbatim>\<open>size_t\<close> for the comparison with
  \<^verbatim>\<open>max\<close>.
\<close>

partial_function (option) worst_fit_loop ::
  "(addr \<rightharpoonup> block) \<Rightarrow> size_t \<Rightarrow> ptr \<Rightarrow> ptr \<Rightarrow> size_t \<Rightarrow> ptr \<Rightarrow> int \<Rightarrow> (ptr \<times> ptr \<times> int) res"
where
  "worst_fit_loop m sz currp worst maxs lastp nb =
     (case currp of
        None \<Rightarrow> Some (Inr (worst, lastp, nb))
      | Some a \<Rightarrow>
          (case m a of
             None \<Rightarrow> Some (Inl UB)
           | Some b \<Rightarrow>
               if free_b b \<and> sz < size_b b
                  \<and> maxs < size_t_of_int (abs_int (int_of_size_t (size_b b - sz)))
               then worst_fit_loop m sz (next_b b) currp (size_b b) currp (nb + 1)
               else worst_fit_loop m sz (next_b b) worst maxs currp (nb + 1)))"

partial_function (option) next_fit_loop ::
  "(addr \<rightharpoonup> block) \<Rightarrow> size_t \<Rightarrow> ptr \<Rightarrow> ptr \<Rightarrow> int \<Rightarrow> (ptr \<times> ptr \<times> int) res"
where
  "next_fit_loop m sz currp lastp nb =
     (case currp of
        None \<Rightarrow> Some (Inr (currp, lastp, nb))
      | Some a \<Rightarrow>
          (case m a of
             None \<Rightarrow> Some (Inl UB)
           | Some b \<Rightarrow>
               if free_b b \<and> sz \<le> size_b b then Some (Inr (currp, lastp, nb))
               else next_fit_loop m sz (next_b b) currp (nb + 1)))"

text \<open>
  \<open>findFreeBlock pol last sz s\<close> is the build of \<^verbatim>\<open>findFreeBlock\<close> in which the macro of
  policy \<open>pol\<close>, and no other, is defined as 0. The parameter \<^verbatim>\<open>struct block **last\<close> is
  passed in and returned with the result.
\<close>

definition findFreeBlock :: "policy \<Rightarrow> ptr \<Rightarrow> size_t \<Rightarrow> heap_state \<Rightarrow> ((ptr \<times> ptr) \<times> heap_state) res" where
  "findFreeBlock pol lastp sz s0 =
     (let currp = FreeList s0; s = s0\<lparr>num_blocks := 0\<rparr> in
      case pol of
        FirstFit \<Rightarrow>
          bind_res (first_fit_loop (mem s) sz currp lastp (num_blocks s))
            (\<lambda>(currp, lastp, nb). Some (Inr ((currp, lastp), s\<lparr>num_blocks := nb\<rparr>)))
      | BestFit \<Rightarrow>
          bind_res (best_fit_loop (mem s) sz currp None (num_blocks s))
            (\<lambda>(best, nb). Some (Inr ((best, lastp), s\<lparr>num_blocks := nb\<rparr>)))
      | WorstFit \<Rightarrow>
          bind_res (worst_fit_loop (mem s) sz currp None 0 lastp (num_blocks s))
            (\<lambda>(worst, lastp, nb). Some (Inr ((worst, lastp), s\<lparr>num_blocks := nb\<rparr>)))
      | NextFit \<Rightarrow>
          (let s1 = (if Final s = None then s\<lparr>Final := currp\<rparr> else s) in
           bind_res (next_fit_loop (mem s1) sz (Final s1) lastp (num_blocks s1))
             (\<lambda>(currp, lastp, nb). Some (Inr ((currp, lastp), s1\<lparr>num_blocks := nb, Final := currp\<rparr>)))))"

section \<open>growHeap\<close>

text \<open>
  Memory that the break has just been moved over reads as zero, so the \<^verbatim>\<open>dirty\<close> flag
  of a header written at an address with no header yet is false; \<^verbatim>\<open>growHeap\<close> does not
  assign it.

  The header is written at the old break. The increment \<^verbatim>\<open>sizeof(struct block) + size\<close>
  is computed in \<^verbatim>\<open>size_t\<close> and taken by \<^verbatim>\<open>sbrk\<close> as a signed value: when it has
  wrapped around, \<^verbatim>\<open>sbrk\<close> can succeed without moving the break past the header, and
  the assignments to the header then write beyond the break, which is undefined
  behaviour.
\<close>

definition growHeap :: "ptr \<Rightarrow> size_t \<Rightarrow> heap_state \<Rightarrow> error + ptr \<times> heap_state" where
  "growHeap lastp sz s =
     (let (c, s1) = sbrk 0 s;
          currp = block_ptr c;
          (p, s2) = sbrk (sizeof_block + sz) s1;
          prev = block_ptr p
      in
      if currp \<noteq> prev then Inl AssertFail
      else if currp = block_ptr (- 1) then Inr (None, s2)
      else
        (case currp of
           None \<Rightarrow> Inl UB
         | Some a \<Rightarrow>
             (let s3 = (if FreeList s2 = None then s2\<lparr>FreeList := currp\<rparr> else s2) in
              case (case lastp of
                      None \<Rightarrow> Inr (mem s3)
                    | Some l \<Rightarrow>
                        (case mem s3 l of
                           None \<Rightarrow> Inl UB
                         | Some lb \<Rightarrow> Inr ((mem s3)(l \<mapsto> lb\<lparr>next_b := currp\<rparr>)))) of
                Inl e \<Rightarrow> Inl e
              | Inr m1 \<Rightarrow>
                  if uint (brk s3) < uint c + uint sizeof_block then Inl UB
                  else
                  (let d = (case m1 a of None \<Rightarrow> False | Some b \<Rightarrow> dirty_b b);
                       m2 = m1(a \<mapsto> \<lparr>size_b = sz, next_b = None, free_b = False, dirty_b = d\<rparr>)
                   in
                   Inr (currp,
                        s3\<lparr>mem := m2,
                           num_grows := num_grows s3 + 1,
                           max_heap := (if size_t_of_int (max_heap s3) < sz
                                        then int_of_size_t sz else max_heap s3)\<rparr>)))))"

section \<open>malloc\<close>

text \<open>
  The split: \<^verbatim>\<open>temp\<close> is an automatic variable of the block of the \<^verbatim>\<open>if\<close>. Its
  lifetime ends at the closing brace, so no header is live at \<open>Frame 0\<close> afterwards, and
  the store after the \<^verbatim>\<open>if\<close> holds only the two assignments through \<^verbatim>\<open>next\<close>.
\<close>

definition malloc :: "policy \<Rightarrow> size_t \<Rightarrow> heap_state \<Rightarrow> (ptr \<times> heap_state) res" where
  "malloc pol size0 s0 =
     (let s1 = (if atexit_registered s0 = 0 then s0\<lparr>atexit_registered := 1\<rparr> else s0);
          sz = ALIGN4 size0
      in
      if sz = 0 then Some (Inr (None, s1))
      else
        bind_res (findFreeBlock pol (FreeList s1) sz s1) (\<lambda>((nextp, lastp), s2).
        bind_res
          (case nextp of
             None \<Rightarrow> Some (Inr s2)
           | Some n \<Rightarrow>
               (case mem s2 n of
                  None \<Rightarrow> Some (Inl UB)
                | Some nb \<Rightarrow>
                    if sz < size_b nb
                    then Some (Inr (s2\<lparr>mem := (mem s2)(n \<mapsto> nb\<lparr>next_b := Some (Frame 0), size_b := sz\<rparr>),
                                      num_splits := num_splits s2 + 1\<rparr>))
                    else Some (Inr s2))) (\<lambda>s3.
        bind_res
          (case nextp of
             None \<Rightarrow> Some (growHeap lastp sz s3)
           | Some n \<Rightarrow> Some (Inr (nextp, s3))) (\<lambda>(nextp, s4).
        (case nextp of
           None \<Rightarrow> Some (Inr (None, s4))
         | Some n \<Rightarrow>
             (case mem s4 n of
                None \<Rightarrow> Some (Inl UB)
              | Some nb \<Rightarrow>
                  (let s5 = (if dirty_b nb then s4\<lparr>num_reuses := num_reuses s4 + 1\<rparr> else s4) in
                   Some (Inr (Some (BLOCK_DATA n),
                              s5\<lparr>mem := (mem s5)(n \<mapsto> nb\<lparr>free_b := False, dirty_b := True\<rparr>),
                                 num_mallocs := num_mallocs s5 + 1,
                                 num_requested :=
                                   int_of_size_t (size_t_of_int (num_requested s5) + sz)\<rparr>)))))))))"

section \<open>free\<close>

text \<open>
  The \<^verbatim>\<open>while\<close> loop of \<^verbatim>\<open>free\<close> writes the store as it walks the chain. In the branch
  \<^verbatim>\<open>curr->next == NULL\<close> the statement \<^verbatim>\<open>previous->next == NULL;\<close> is a comparison
  whose value is dropped: the store stays as it is.
\<close>

partial_function (option) coalesce_loop ::
  "addr \<Rightarrow> ptr \<Rightarrow> (addr \<rightharpoonup> block) \<Rightarrow> int \<Rightarrow> ((addr \<rightharpoonup> block) \<times> int) res"
where
  "coalesce_loop currp tempBlock m nc =
     (case tempBlock of
        None \<Rightarrow> Some (Inr (m, nc))
      | Some t \<Rightarrow>
          (case m t of
             None \<Rightarrow> Some (Inl UB)
           | Some tb \<Rightarrow>
               if next_b tb = Some currp \<and> free_b tb then
                 (case m currp of
                    None \<Rightarrow> Some (Inl UB)
                  | Some cb \<Rightarrow>
                      (let tb1 = tb\<lparr>size_b := size_b tb + size_b cb\<rparr>;
                           m1 = m(t \<mapsto> tb1)
                       in
                       case m1 currp of
                         None \<Rightarrow> Some (Inl UB)
                       | Some cb1 \<Rightarrow>
                           (let tb2 = (case next_b cb1 of
                                         None \<Rightarrow> tb1
                                       | Some n \<Rightarrow> tb1\<lparr>next_b := next_b cb1\<rparr>);
                                m2 = m1(t \<mapsto> tb2)
                            in coalesce_loop currp (next_b tb2) m2 (nc + 1))))
               else coalesce_loop currp (next_b tb) m nc))"

definition free :: "ptr \<Rightarrow> heap_state \<Rightarrow> heap_state res" where
  "free ptr s =
     (case ptr of
        None \<Rightarrow> Some (Inr s)
      | Some p \<Rightarrow>
          (let currp = BLOCK_HEADER p; tempBlock = FreeList s in
           case mem s currp of
             None \<Rightarrow> Some (Inl UB)
           | Some cb \<Rightarrow>
               if free_b cb then Some (Inl AssertFail)
               else
                 (let cb1 = cb\<lparr>free_b := True\<rparr>;
                      s1 = s\<lparr>mem := (mem s)(currp \<mapsto> cb1), num_frees := num_frees s + 1\<rparr>
                  in
                  bind_res
                    (case next_b cb1 of
                       None \<Rightarrow> Some (Inr s1)
                     | Some rightBlock \<Rightarrow>
                         (case mem s1 rightBlock of
                            None \<Rightarrow> Some (Inl UB)
                          | Some rb \<Rightarrow>
                              if free_b rb
                              then Some (Inr (s1\<lparr>mem := (mem s1)(currp \<mapsto>
                                                    cb1\<lparr>size_b := size_b cb1 + size_b rb,
                                                        next_b := next_b rb\<rparr>),
                                                 num_coalesces := num_coalesces s1 + 1\<rparr>))
                              else Some (Inr s1))) (\<lambda>s2.
                  bind_res (coalesce_loop currp tempBlock (mem s2) (num_coalesces s2)) (\<lambda>(m, nc).
                  Some (Inr (s2\<lparr>mem := m, num_coalesces := nc\<rparr>)))))))"

section \<open>Chains\<close>

text \<open>\<open>chain m p as\<close>: starting at \<open>p\<close>, the \<^verbatim>\<open>next\<close> links of the store \<open>m\<close> run through
  exactly the live headers \<open>as\<close> and then reach \<^verbatim>\<open>NULL\<close>.\<close>

fun chain :: "(addr \<rightharpoonup> block) \<Rightarrow> ptr \<Rightarrow> addr list \<Rightarrow> bool" where
  "chain m p [] = (p = None)"
| "chain m p (a # as) =
     (p = Some a \<and> (case m a of None \<Rightarrow> False | Some b \<Rightarrow> chain m (next_b b) as))"

section \<open>Sequences of calls\<close>

text \<open>A caller's script: calls of \<^verbatim>\<open>malloc\<close> and \<^verbatim>\<open>free\<close>, run in order until one
  of them does not return.\<close>

datatype call = Malloc size_t | Free ptr

definition exec :: "policy \<Rightarrow> call \<Rightarrow> heap_state \<Rightarrow> heap_state res" where
  "exec pol c s =
     (case c of
        Malloc n \<Rightarrow> bind_res (malloc pol n s) (\<lambda>(p, s'). Some (Inr s'))
      | Free p \<Rightarrow> free p s)"

fun run :: "policy \<Rightarrow> call list \<Rightarrow> heap_state \<Rightarrow> heap_state res" where
  "run pol [] s = Some (Inr s)"
| "run pol (c # cs) s = bind_res (exec pol c s) (run pol cs)"

text \<open>The state of a process that has not called \<^verbatim>\<open>malloc\<close> yet, with its break at
  \<open>b\<close> and the highest break the system grants at \<open>bmax\<close>.\<close>

definition empty_heap :: "size_t \<Rightarrow> size_t \<Rightarrow> heap_state" where
  "empty_heap b bmax =
     \<lparr>mem = Map.empty, FreeList = None, Final = None, atexit_registered = 0,
      num_mallocs = 0, num_frees = 0, num_reuses = 0, num_grows = 0, num_splits = 0,
      num_coalesces = 0, num_blocks = 0, num_requested = 0, max_heap = 0,
      brk = b, brk_max = bmax\<rparr>"

text \<open>The state a script leaves behind when every call of it returns.\<close>

definition state_after :: "policy \<Rightarrow> call list \<Rightarrow> heap_state \<Rightarrow> heap_state" where
  "state_after pol cs s = (case run pol cs s of Some (Inr s') \<Rightarrow> s' | _ \<Rightarrow> s)"

section \<open>What the specification asks of the fit policies\<close>

text \<open>A block that can serve a request of \<open>S\<close> bytes: a live header that is free and of
  size at least \<open>S\<close>.\<close>

definition fits :: "(addr \<rightharpoonup> block) \<Rightarrow> size_t \<Rightarrow> addr \<Rightarrow> bool" where
  "fits m S a = (case m a of None \<Rightarrow> False | Some b \<Rightarrow> free_b b \<and> S \<le> size_b b)"

definition size_at :: "(addr \<rightharpoonup> block) \<Rightarrow> addr \<Rightarrow> size_t" where
  "size_at m a = (case m a of None \<Rightarrow> 0 | Some b \<Rightarrow> size_b b)"

text \<open>
  Best fit, in the specification's words: of the free blocks of the chain with size at
  least \<open>S\<close>, the smallest, and of several smallest the earliest. The scan visits the
  whole chain, unless a free block of size exactly \<open>S\<close> ends it.
\<close>

definition earliest_smallest :: "(addr \<rightharpoonup> block) \<Rightarrow> addr list \<Rightarrow> ptr" where
  "earliest_smallest m cs =
     (if cs = [] then None else find (\<lambda>a. size_at m a = Min (size_at m ` set cs)) cs)"

definition best_fit_spec :: "(addr \<rightharpoonup> block) \<Rightarrow> size_t \<Rightarrow> addr list \<Rightarrow> ptr" where
  "best_fit_spec m S xs = earliest_smallest m (filter (fits m S) xs)"

definition best_fit_scanned :: "(addr \<rightharpoonup> block) \<Rightarrow> size_t \<Rightarrow> addr list \<Rightarrow> nat" where
  "best_fit_scanned m S xs =
     min (length xs) (Suc (length (takeWhile (\<lambda>a. \<not> (fits m S a \<and> size_at m a = S)) xs)))"

text \<open>The example of the specification: three free blocks of 10, 50 and 5 bytes.\<close>

definition three_free_blocks :: heap_state where
  "three_free_blocks =
     (empty_heap 4233 8192)
       \<lparr>mem := [Arena 4096 \<mapsto> \<lparr>size_b = 10, next_b = Some (Arena 4130), free_b = True, dirty_b = True\<rparr>,
                Arena 4130 \<mapsto> \<lparr>size_b = 50, next_b = Some (Arena 4204), free_b = True, dirty_b = True\<rparr>,
                Arena 4204 \<mapsto> \<lparr>size_b = 5, next_b = None, free_b = True, dirty_b = True\<rparr>],
        FreeList := Some (Arena 4096)\<rparr>"

text \<open>Next fit: where a search starts, the cursor or, when the cursor is null, the head
  of the chain.\<close>

definition next_fit_start :: "heap_state \<Rightarrow> ptr" where
  "next_fit_start s = (if Final s = None then FreeList s else Final s)"

text \<open>A next-fit run that leaves the cursor on the second block of a chain of two, with
  the first block free: two blocks are allocated, the second is freed and allocated
  again (the search finds it, the cursor rests on it), then the first is freed.\<close>

definition cursor_advanced :: heap_state where
  "cursor_advanced =
     state_after NextFit
       [Malloc 8, Malloc 8, Free (Some (Arena 4152)), Malloc 8, Free (Some (Arena 4120))]
       (empty_heap 4096 8192)"

text \<open>The pointer a call of \<^verbatim>\<open>malloc\<close> returns.\<close>

definition returned :: "(ptr \<times> heap_state) res \<Rightarrow> ptr res" where
  "returned r = bind_res r (\<lambda>(p, s). Some (Inr p))"

text \<open>The bytes a script asks for, after alignment.\<close>

fun requested_total :: "call list \<Rightarrow> int" where
  "requested_total [] = 0"
| "requested_total (Malloc n # cs) = uint (ALIGN4 n) + requested_total cs"
| "requested_total (Free p # cs) = requested_total cs"

section \<open>Alignment\<close>

lemma ALIGN4_unat: "unat (ALIGN4 s) = (unat (s - 1) div 4 * 4 + 4) mod 2 ^ 64"
  by (simp add: ALIGN4_def push_bit_eq_mult unat_drop_bit_eq unat_word_ariths mod_simps
      drop_bit_eq_div)

lemma ALIGN4_zero: "ALIGN4 0 = 0"
  by code_simp

section \<open>Requests of size zero\<close>

text \<open>
  Claim C6. \<^verbatim>\<open>malloc(0)\<close> returns \<^verbatim>\<open>NULL\<close> in every state and under every policy, and
  leaves the store of block headers, the chain head, the next-fit cursor, the nine
  statistics counters and the program break as they were. (\<^verbatim>\<open>ALIGN4(0)\<close> wraps around
  to 0, which the test \<^verbatim>\<open>size == 0\<close> then catches. The only variable the call may
  write is the flag \<^verbatim>\<open>atexit_registered\<close>.)
\<close>

theorem malloc_zero_returns_null_unchanged:
  "\<exists>s'. malloc pol 0 s = Some (Inr (None, s'))
     \<and> mem s' = mem s \<and> FreeList s' = FreeList s \<and> Final s' = Final s
     \<and> num_mallocs s' = num_mallocs s \<and> num_frees s' = num_frees s
     \<and> num_reuses s' = num_reuses s \<and> num_grows s' = num_grows s
     \<and> num_splits s' = num_splits s \<and> num_coalesces s' = num_coalesces s
     \<and> num_blocks s' = num_blocks s \<and> num_requested s' = num_requested s
     \<and> max_heap s' = max_heap s \<and> brk s' = brk s"
  by (simp add: malloc_def ALIGN4_zero Let_def)

section \<open>Evaluation on concrete states\<close>

lemmas run_eval = malloc_def free_def findFreeBlock_def first_fit_loop.simps
  best_fit_loop.simps worst_fit_loop.simps next_fit_loop.simps coalesce_loop.simps
  bind_res_def growHeap_def sbrk_def empty_heap_def block_ptr_def sizeof_block_def Let_def
  size_t_of_int_def int_of_size_t_def abs_int_def INT_MAX_def exec_def

lemma ALIGN4_values:
  "ALIGN4 8 = 8" "ALIGN4 16 = 16" "ALIGN4 32 = 32" "ALIGN4 100 = 100" "ALIGN4 150 = 152"
  "ALIGN4 996 = 996" "ALIGN4 1000 = 1000"
  by code_simp+

text \<open>\<^verbatim>\<open>abs\<close> at a difference of sizes of exactly \<open>2\<^sup>3\<^sup>1\<close>, which converts to
  \<^verbatim>\<open>INT_MIN\<close>.\<close>

lemma abs_int_INT_MIN: "abs_int (int_of_size_t 2147483648) = - 2147483648"
  by (simp add: abs_int_def INT_MAX_def int_of_size_t_def)

section \<open>Heap growth when the system refuses\<close>

lemma growHeap_denied:
  assumes "fst (sbrk (sizeof_block + sz) s) = - 1" and "brk s \<noteq> - 1"
  shows "growHeap lastp sz s = Inl AssertFail"
proof -
  obtain p s2 where p: "sbrk (sizeof_block + sz) s = (p, s2)"
    by (cases "sbrk (sizeof_block + sz) s")
  with assms have "p = - 1" by simp
  moreover have "block_ptr (brk s) \<noteq> block_ptr (- 1)"
    using assms(2) by (simp add: block_ptr_def)
  ultimately show ?thesis
    using p by (simp add: growHeap_def sbrk_def [of 0] Let_def)
qed

text \<open>
  Claim C3, at a failing input. The break is at 4096 and the system grants no break above
  4100, so the request for \<open>24 + 8\<close> bytes is refused: \<^verbatim>\<open>sbrk\<close> returns
  \<^verbatim>\<open>(void *) -1\<close> into \<^verbatim>\<open>prev\<close> while \<^verbatim>\<open>curr\<close> holds the break, and
  \<^verbatim>\<open>assert(curr == prev)\<close> aborts the process. \<^verbatim>\<open>growHeap\<close> does not return
  \<^verbatim>\<open>NULL\<close>, and neither does the \<^verbatim>\<open>malloc\<close> that called it.
\<close>

theorem growHeap_refused_aborts:
  "growHeap None 8 (empty_heap 4096 4100) = Inl AssertFail
   \<and> malloc FirstFit 8 (empty_heap 4096 4100) = Some (Inl AssertFail)"
  by (simp add: run_eval ALIGN4_values)

text \<open>A size for which \<^verbatim>\<open>sizeof(struct block) + size\<close> wraps around to 0, or to 16:
  \<^verbatim>\<open>sbrk\<close> succeeds, the break does not pass the header, and the assignments to the
  header are undefined.\<close>

lemma growHeap_wrapped_increment:
  "growHeap None (- 24) (empty_heap 4096 8192) = Inl UB"
  "growHeap None (- 8) (empty_heap 4096 8192) = Inl UB"
  by (simp_all add: run_eval)

section \<open>Backward coalescing of the tail\<close>

text \<open>
  One round of the loop of \<^verbatim>\<open>free\<close> at a free predecessor \<open>t\<close> of the freed block
  \<open>c\<close>. When \<open>c\<close> is the tail, \<open>t\<close> takes the size of \<open>c\<close> and nothing else is written:
  \<open>t\<close> still points to \<open>c\<close>, and the loop ends two rounds later. When \<open>c\<close> has a
  successor \<open>n\<close>, \<open>t\<close> is linked to \<open>n\<close>.
\<close>

lemma coalesce_loop_tail_keeps_link:
  assumes "m t = Some tb" and "next_b tb = Some c" and "free_b tb"
    and "m c = Some cb" and "next_b cb = None" and "t \<noteq> c"
  shows "coalesce_loop c (Some t) m nc =
           Some (Inr (m(t \<mapsto> tb\<lparr>size_b := size_b tb + size_b cb\<rparr>), nc + 1))"
proof -
  let ?m1 = "m(t \<mapsto> tb\<lparr>size_b := size_b tb + size_b cb\<rparr>)"
  have "coalesce_loop c (Some t) m nc = coalesce_loop c (Some c) ?m1 (nc + 1)"
    using assms by (subst coalesce_loop.simps) (simp add: Let_def)
  also have "\<dots> = coalesce_loop c None ?m1 (nc + 1)"
    using assms by (subst coalesce_loop.simps) simp
  also have "\<dots> = Some (Inr (?m1, nc + 1))"
    by (subst coalesce_loop.simps) simp
  finally show ?thesis .
qed

lemma coalesce_loop_inner_relinks:
  assumes "m t = Some tb" and "next_b tb = Some c" and "free_b tb"
    and "m c = Some cb" and "next_b cb = Some n" and "t \<noteq> c"
  shows "coalesce_loop c (Some t) m nc =
           coalesce_loop c (Some n)
             (m(t \<mapsto> tb\<lparr>size_b := size_b tb + size_b cb, next_b := Some n\<rparr>)) (nc + 1)"
  using assms by (subst coalesce_loop.simps) (simp add: Let_def)

text \<open>
  Claim C1, at a failing input. Two blocks of 16 and 32 bytes are allocated and freed in
  that order. When the second, the tail of the chain, is freed, its free predecessor
  takes its 32 bytes (its size becomes 48) but keeps its \<^verbatim>\<open>next\<close> link: the freed block
  is still the second node of the chain.
\<close>

theorem backward_coalesce_keeps_tail_linked:
  "\<exists>s. run FirstFit [Malloc 16, Malloc 32, Free (Some (Arena 4120)), Free (Some (Arena 4160))]
         (empty_heap 4096 8192) = Some (Inr s)
     \<and> mem s (Arena 4096) =
         Some \<lparr>size_b = 48, next_b = Some (Arena 4136), free_b = True, dirty_b = True\<rparr>
     \<and> mem s (Arena 4136) =
         Some \<lparr>size_b = 32, next_b = None, free_b = True, dirty_b = True\<rparr>
     \<and> chain (mem s) (FreeList s) [Arena 4096, Arena 4136]"
  by (simp add: run_eval ALIGN4_values)

section \<open>Splitting\<close>

text \<open>
  Claim C2, at a failing input. A block of 1000 bytes is allocated and freed, and 100
  bytes are requested. The block found is cut to 100 bytes and its \<^verbatim>\<open>next\<close> is set to
  the address of the automatic variable \<^verbatim>\<open>temp\<close>, where no header is live once the
  call has returned; the store holds no header but the one of the block found, so no
  remainder block exists in the arena. The next search walks into the dead address.
\<close>

theorem split_links_dead_stack_block:
  "\<exists>s. run FirstFit [Malloc 1000, Free (Some (Arena 4120)), Malloc 100]
         (empty_heap 4096 8192) = Some (Inr s)
     \<and> mem s (Arena 4096) =
         Some \<lparr>size_b = 100, next_b = Some (Frame 0), free_b = False, dirty_b = True\<rparr>
     \<and> mem s (Frame 0) = None
     \<and> dom (mem s) = {Arena 4096}
     \<and> malloc FirstFit 8 s = Some (Inl UB)"
  by (simp add: run_eval ALIGN4_values)

text \<open>The split is taken whenever the block found is larger than the request, also when
  the surplus (here 4 bytes) is smaller than a header of 24 bytes.\<close>

lemma split_ignores_header_cost:
  "\<exists>s. run FirstFit [Malloc 1000, Free (Some (Arena 4120)), Malloc 996]
         (empty_heap 4096 8192) = Some (Inr s)
     \<and> num_splits s = 1
     \<and> mem s (Arena 4096) =
         Some \<lparr>size_b = 996, next_b = Some (Frame 0), free_b = False, dirty_b = True\<rparr>"
  by (simp add: run_eval ALIGN4_values)

section \<open>Worst fit\<close>

text \<open>
  Claim C4, at a failing input. The chain holds a free block of 100 bytes, a busy one, a
  free block of 152 bytes and a busy one. For a request of 60 bytes the surpluses are 40
  and 92, and the search returns the block of 100 bytes: after the first candidate the
  variable \<^verbatim>\<open>max\<close> holds its size 100, not its surplus 40, and 92 does not exceed 100.
\<close>

theorem worst_fit_returns_smaller_surplus:
  "\<exists>s. run WorstFit [Malloc 100, Malloc 8, Malloc 150, Malloc 8,
                      Free (Some (Arena 4120)), Free (Some (Arena 4276))]
         (empty_heap 4096 8192) = Some (Inr s)
     \<and> chain (mem s) (FreeList s) [Arena 4096, Arena 4220, Arena 4252, Arena 4428]
     \<and> map (\<lambda>a. map_option (\<lambda>b. (free_b b, size_b b)) (mem s a))
           [Arena 4096, Arena 4220, Arena 4252, Arena 4428]
         = [Some (True, 100), Some (False, 8), Some (True, 152), Some (False, 8)]
     \<and> (\<exists>s'. findFreeBlock WorstFit (FreeList s) 60 s
               = Some (Inr ((Some (Arena 4096), Some (Arena 4428)), s')))"
  by (simp add: run_eval ALIGN4_values)

section \<open>Double free\<close>

text \<open>The loop of \<^verbatim>\<open>free\<close> writes sizes and links only: every header keeps its
  \<^verbatim>\<open>free\<close> flag.\<close>

lemma coalesce_loop_free_flags_aux:
  assumes "coalesce_loop c t m nc = Some y"
  shows "y = Inr (m', nc') \<Longrightarrow> map_option free_b (m' a) = map_option free_b (m a)"
  using assms
proof (induction c t m nc y rule: coalesce_loop.raw_induct [rotated 1, consumes 1])
  case (1 loop c t m nc y)
  then show ?case
    by (auto split: option.splits if_splits simp: Let_def)
qed

lemma coalesce_loop_free_flags:
  assumes "coalesce_loop c t m nc = Some (Inr (m', nc'))"
  shows "map_option free_b (m' a) = map_option free_b (m a)"
  using assms coalesce_loop_free_flags_aux by blast

text \<open>\<^verbatim>\<open>assert(curr->free == 0)\<close>: a call on a block whose flag is set aborts, before
  any assignment.\<close>

lemma free_asserts_block_busy:
  assumes "mem s (BLOCK_HEADER p) = Some b" and "free_b b"
  shows "free (Some p) s = Some (Inl AssertFail)"
  using assms by (simp add: free_def)

lemma free_marks_block:
  assumes "free (Some p) s = Some (Inr s1)"
  shows "map_option free_b (mem s1 (BLOCK_HEADER p)) = Some True"
  using assms
  by (auto simp: free_def Let_def bind_res_def split: option.splits if_splits sum.splits
      dest!: coalesce_loop_free_flags [where a = "BLOCK_HEADER p"])

text \<open>
  Claim C10. When \<^verbatim>\<open>free(p)\<close> has returned for a non-null \<open>p\<close>, a second \<^verbatim>\<open>free(p)\<close>
  in the state it left fails the assertion on the block's \<^verbatim>\<open>free\<close> flag: the process
  aborts, the block is not marked again and \<^verbatim>\<open>num_frees\<close> is not incremented a second
  time.
\<close>

theorem double_free_fails_fast:
  assumes "free (Some p) s = Some (Inr s1)"
  shows "free (Some p) s1 = Some (Inl AssertFail)"
proof -
  from free_marks_block [OF assms]
  obtain b where "mem s1 (BLOCK_HEADER p) = Some b" "free_b b" by auto
  then show ?thesis by (rule free_asserts_block_busy)
qed

theorem double_free_fails_fast_witness:
  "\<exists>s1. free (Some (Arena 4120)) (state_after FirstFit [Malloc 16] (empty_heap 4096 8192))
           = Some (Inr s1)
     \<and> num_frees s1 = 1
     \<and> free (Some (Arena 4120)) s1 = Some (Inl AssertFail)"
proof -
  have "\<exists>s1. free (Some (Arena 4120)) (state_after FirstFit [Malloc 16] (empty_heap 4096 8192))
                = Some (Inr s1) \<and> num_frees s1 = 1"
    by (simp add: state_after_def run_eval ALIGN4_values)
  then show ?thesis using double_free_fails_fast by blast
qed

section \<open>Best fit\<close>

lemma find_append_cases:
  "find P (xs @ ys) = (case find P xs of None \<Rightarrow> find P ys | Some x \<Rightarrow> Some x)"
  by (induction xs) auto

lemma earliest_smallest_Some:
  assumes "earliest_smallest m cs = Some b"
  shows "cs \<noteq> []" and "b \<in> set cs" and "size_at m b = Min (size_at m ` set cs)"
  using assms by (auto simp: earliest_smallest_def find_Some_iff split: if_splits)

lemma earliest_smallest_snoc_less:
  assumes "earliest_smallest m cs = Some b" and "size_at m x < size_at m b"
  shows "earliest_smallest m (cs @ [x]) = Some x"
proof -
  note b = earliest_smallest_Some [OF assms(1)]
  have lt: "\<forall>c\<in>set cs. size_at m x < size_at m c"
    using b(3) assms(2) by (metis List.finite_set Min_le finite_imageI imageI order_less_le_trans)
  then have "Min (size_at m ` set (cs @ [x])) = size_at m x"
    by (intro Min_eqI) (auto simp: less_imp_le)
  moreover have "find (\<lambda>a. size_at m a = size_at m x) cs = None"
    using lt by (auto simp: find_None_iff)
  ultimately show ?thesis
    by (simp add: earliest_smallest_def find_append_cases)
qed

lemma earliest_smallest_snoc_ge:
  assumes "earliest_smallest m cs = Some b" and "\<not> size_at m x < size_at m b"
  shows "earliest_smallest m (cs @ [x]) = Some b"
proof -
  note b = earliest_smallest_Some [OF assms(1)]
  have le: "\<forall>c\<in>set cs. size_at m b \<le> size_at m c"
    using b(3) by simp
  have "Min (size_at m ` set (cs @ [x])) = size_at m b"
  proof (rule Min_eqI)
    show "finite (size_at m ` set (cs @ [x]))" by simp
    show "size_at m b \<in> size_at m ` set (cs @ [x])" using b(2) by simp
    fix y assume "y \<in> size_at m ` set (cs @ [x])"
    then show "size_at m b \<le> y" using le assms(2) by (auto simp: not_less)
  qed
  then show ?thesis
    using assms(1) b by (simp add: earliest_smallest_def find_append_cases)
qed

lemma earliest_smallest_exact:
  assumes "\<forall>c\<in>set cs. S < size_at m c" and "size_at m x = S" and "\<forall>c\<in>set ys. S \<le> size_at m c"
  shows "earliest_smallest m (cs @ x # ys) = Some x"
proof -
  have "Min (size_at m ` set (cs @ x # ys)) = S"
    using assms by (intro Min_eqI) (auto simp: less_imp_le)
  moreover have "find (\<lambda>a. size_at m a = S) cs = None"
    using assms(1) by (auto simp: find_None_iff)
  ultimately show ?thesis
    using assms(2) by (simp add: earliest_smallest_def find_append_cases)
qed

lemma fits_Some:
  "m a = Some b \<Longrightarrow> fits m S a = (free_b b \<and> S \<le> size_b b)"
  "m a = Some b \<Longrightarrow> size_at m a = size_b b"
  by (simp_all add: fits_def size_at_def)

lemma fits_size: "fits m S a \<Longrightarrow> S \<le> size_at m a"
  by (auto simp: fits_def size_at_def split: option.splits)

lemma fits_live: "fits m S a \<Longrightarrow> \<exists>b. m a = Some b"
  by (auto simp: fits_def split: option.splits)

lemma best_fit_loop_skip:
  assumes "m x = Some b" and "\<not> (free_b b \<and> S \<le> size_b b)"
  shows "best_fit_loop m S (Some x) best nb = best_fit_loop m S (next_b b) best (nb + 1)"
  using assms by (subst best_fit_loop.simps) auto

lemma best_fit_loop_first:
  assumes "m x = Some b" and "free_b b \<and> S \<le> size_b b"
  shows "best_fit_loop m S (Some x) None nb =
           (if size_b b = S then Some (Inr (Some x, nb + 1))
            else best_fit_loop m S (next_b b) (Some x) (nb + 1))"
  using assms by (subst best_fit_loop.simps) auto

lemma best_fit_loop_compare:
  assumes "m x = Some b" and "free_b b \<and> S \<le> size_b b" and "m ba = Some bb"
  shows "best_fit_loop m S (Some x) (Some ba) nb =
           (if size_b b < size_b bb
            then (if size_b b = S then Some (Inr (Some x, nb + 1))
                  else best_fit_loop m S (next_b b) (Some x) (nb + 1))
            else best_fit_loop m S (next_b b) (Some ba) (nb + 1))"
  using assms by (subst best_fit_loop.simps) auto

lemma best_fit_scanned_Cons:
  "best_fit_scanned m S (x # xs) =
     (if fits m S x \<and> size_at m x = S then 1 else Suc (best_fit_scanned m S xs))"
  by (simp add: best_fit_scanned_def)

lemma best_fit_loop_chain:
  assumes "chain m p xs"
    and "case best of None \<Rightarrow> pre = [] | Some b \<Rightarrow> earliest_smallest m pre = Some b"
    and "\<forall>c\<in>set pre. fits m S c \<and> S < size_at m c"
  shows "best_fit_loop m S p best nb =
           Some (Inr (earliest_smallest m (pre @ filter (fits m S) xs),
                      nb + int (best_fit_scanned m S xs)))"
  using assms
proof (induction xs arbitrary: p best pre nb)
  case Nil
  then show ?case
    by (subst best_fit_loop.simps)
       (auto simp: best_fit_scanned_def earliest_smallest_def split: option.splits)
next
  case (Cons x xs)
  from Cons.prems(1) obtain b where p: "p = Some x" and b: "m x = Some b"
    and ch: "chain m (next_b b) xs"
    by (auto split: option.splits)
  let ?cand = "free_b b \<and> S \<le> size_b b"
  have fx: "fits m S x = (free_b b \<and> S \<le> size_b b)" "size_at m x = size_b b"
    using b by (simp_all add: fits_def size_at_def)
  have ys: "\<forall>c\<in>set (filter (fits m S) xs). S \<le> size_at m c"
    by (simp add: fits_size)
  show ?case
  proof (cases ?cand)
    case False
    have "best_fit_loop m S p best nb = best_fit_loop m S (next_b b) best (nb + 1)"
      unfolding p by (rule best_fit_loop_skip [where m = m and x = x, OF b False])
    also have "\<dots> = Some (Inr (earliest_smallest m (pre @ filter (fits m S) xs),
                      nb + 1 + int (best_fit_scanned m S xs)))"
      by (rule Cons.IH [OF ch Cons.prems(2,3)])
    moreover have "\<not> fits m S x" using False fx by simp
    ultimately show ?thesis
      by (simp add: best_fit_scanned_Cons)
  next
    case True
    then have fit: "fits m S x" using fx by simp
    show ?thesis
    proof (cases "size_b b = S")
      case exact: True
      have "best_fit_loop m S p best nb = Some (Inr (Some x, nb + 1))"
      proof (cases best)
        case None
        show ?thesis
          unfolding p None using exact
          by (simp add: best_fit_loop_first [where m = m and x = x, OF b True])
      next
        case (Some ba)
        with Cons.prems(2) have "earliest_smallest m pre = Some ba" by simp
        then have "ba \<in> set pre" by (rule earliest_smallest_Some)
        with Cons.prems(3) have "fits m S ba" "S < size_at m ba" by auto
        then obtain bb where bb: "m ba = Some bb" and "S < size_b bb"
          by (auto simp: fits_def size_at_def split: option.splits)
        then show ?thesis
          unfolding p Some using exact
          by (simp add: best_fit_loop_compare [where m = m and x = x, OF b True bb])
      qed
      moreover have "earliest_smallest m (pre @ x # filter (fits m S) xs) = Some x"
        using Cons.prems(3) exact fx ys by (intro earliest_smallest_exact) auto
      ultimately show ?thesis
        using fit exact fx(2) by (simp add: best_fit_scanned_Cons)
    next
      case inexact: False
      have "S < size_at m x" using True inexact fx(2) by (auto simp: less_le)
      then have x_pre: "\<forall>c\<in>set (pre @ [x]). fits m S c \<and> S < size_at m c"
        using Cons.prems(3) fit by auto
      have sc: "best_fit_scanned m S (x # xs) = Suc (best_fit_scanned m S xs)"
        using inexact fx(2) by (simp add: best_fit_scanned_Cons)
      show ?thesis
      proof (cases best)
        case None
        with Cons.prems(2) have pre: "pre = []" by simp
        have "best_fit_loop m S p best nb = best_fit_loop m S (next_b b) (Some x) (nb + 1)"
          unfolding p None using inexact by (simp add: best_fit_loop_first [where m = m and x = x, OF b True])
        also have "\<dots> = Some (Inr (earliest_smallest m ((pre @ [x]) @ filter (fits m S) xs),
                      nb + 1 + int (best_fit_scanned m S xs)))"
          using x_pre by (intro Cons.IH [OF ch]) (simp_all add: pre earliest_smallest_def)
        finally show ?thesis using fit sc by simp
      next
        case (Some ba)
        with Cons.prems(2) have ba: "earliest_smallest m pre = Some ba" by simp
        then have "ba \<in> set pre" by (rule earliest_smallest_Some)
        with Cons.prems(3) have "fits m S ba" by auto
        then obtain bb where bb: "m ba = Some bb" by (auto dest: fits_live)
        have fb: "size_at m ba = size_b bb"
          using bb by (simp add: size_at_def)
        show ?thesis
        proof (cases "size_b b < size_b bb")
          case less: True
          have "best_fit_loop m S p best nb = best_fit_loop m S (next_b b) (Some x) (nb + 1)"
            unfolding p Some using inexact less by (simp add: best_fit_loop_compare [where m = m and x = x, OF b True bb])
          also have "\<dots> = Some (Inr (earliest_smallest m ((pre @ [x]) @ filter (fits m S) xs),
                      nb + 1 + int (best_fit_scanned m S xs)))"
            using x_pre less fx fb
            by (intro Cons.IH [OF ch]) (simp_all add: earliest_smallest_snoc_less [OF ba])
          finally show ?thesis using fit sc by simp
        next
          case ge: False
          have "best_fit_loop m S p best nb = best_fit_loop m S (next_b b) (Some ba) (nb + 1)"
            unfolding p Some using ge by (simp add: best_fit_loop_compare [where m = m and x = x, OF b True bb])
          also have "\<dots> = Some (Inr (earliest_smallest m ((pre @ [x]) @ filter (fits m S) xs),
                      nb + 1 + int (best_fit_scanned m S xs)))"
            using x_pre ge fx fb
            by (intro Cons.IH [OF ch]) (simp_all add: earliest_smallest_snoc_ge [OF ba])
          finally show ?thesis using fit sc by simp
        qed
      qed
    qed
  qed
qed

text \<open>What \<open>best_fit_spec\<close> returns: nothing exactly when no block of the chain fits; else a
  block of the chain that fits, no larger than any block that fits, and strictly smaller
  than every block that fits and comes before it.\<close>

lemma best_fit_spec_None_iff:
  "best_fit_spec m S xs = None \<longleftrightarrow> (\<forall>a\<in>set xs. \<not> fits m S a)"
proof (cases "filter (fits m S) xs = []")
  case True
  then show ?thesis
    by (simp add: best_fit_spec_def earliest_smallest_def filter_empty_conv)
next
  case False
  let ?cs = "filter (fits m S) xs"
  have "Min (size_at m ` set ?cs) \<in> size_at m ` set ?cs"
    using False by (intro Min_in) (auto simp: filter_empty_conv)
  then obtain c where c: "c \<in> set ?cs" "size_at m c = Min (size_at m ` set ?cs)"
    by (metis imageE)
  then have "find (\<lambda>a. size_at m a = Min (size_at m ` set ?cs)) ?cs \<noteq> None"
    unfolding find_None_iff by blast
  moreover have "\<exists>a\<in>set xs. fits m S a"
    using c(1) by auto
  ultimately show ?thesis
    using False by (auto simp: best_fit_spec_def earliest_smallest_def)
qed

lemma best_fit_spec_Some:
  assumes "best_fit_spec m S xs = Some a"
  shows "a \<in> set xs" and "fits m S a"
    and "\<forall>c\<in>set xs. fits m S c \<longrightarrow> size_at m a \<le> size_at m c"
proof -
  let ?cs = "filter (fits m S) xs"
  from assms have e: "earliest_smallest m ?cs = Some a"
    by (simp add: best_fit_spec_def)
  note a = earliest_smallest_Some [OF e]
  from a(2) show "a \<in> set xs" and "fits m S a" by auto
  show "\<forall>c\<in>set xs. fits m S c \<longrightarrow> size_at m a \<le> size_at m c"
    using a(3) by auto
qed

lemma find_filter_split:
  assumes "find P (filter Q xs) = Some a"
  shows "\<exists>pre post. xs = pre @ a # post \<and> (\<forall>c\<in>set pre. Q c \<longrightarrow> \<not> P c)"
  using assms
proof (induction xs)
  case Nil
  then show ?case by simp
next
  case (Cons x xs)
  show ?case
  proof (cases "Q x \<and> P x")
    case True
    with Cons.prems have "a = x" by simp
    then have "x # xs = [] @ a # xs \<and> (\<forall>c\<in>set []. Q c \<longrightarrow> \<not> P c)" by simp
    then show ?thesis by blast
  next
    case False
    with Cons.prems have "find P (filter Q xs) = Some a" by (auto split: if_splits)
    from Cons.IH [OF this] obtain pre post
      where "xs = pre @ a # post" "\<forall>c\<in>set pre. Q c \<longrightarrow> \<not> P c" by blast
    with False have "x # xs = (x # pre) @ a # post \<and> (\<forall>c\<in>set (x # pre). Q c \<longrightarrow> \<not> P c)"
      by auto
    then show ?thesis by blast
  qed
qed

lemma best_fit_spec_earliest:
  assumes "best_fit_spec m S xs = Some a"
  shows "\<exists>pre post. xs = pre @ a # post
           \<and> (\<forall>c\<in>set pre. fits m S c \<longrightarrow> size_at m a < size_at m c)"
proof -
  let ?cs = "filter (fits m S) xs"
  let ?min = "Min (size_at m ` set ?cs)"
  from assms have e: "earliest_smallest m ?cs = Some a"
    by (simp add: best_fit_spec_def)
  note a = earliest_smallest_Some [OF e]
  from e a(1) have "find (\<lambda>c. size_at m c = ?min) ?cs = Some a"
    by (simp add: earliest_smallest_def)
  from find_filter_split [OF this] obtain pre post
    where xs: "xs = pre @ a # post"
      and pre: "\<forall>c\<in>set pre. fits m S c \<longrightarrow> size_at m c \<noteq> ?min" by blast
  have "\<forall>c\<in>set pre. fits m S c \<longrightarrow> size_at m a < size_at m c"
  proof (intro ballI impI)
    fix c assume c: "c \<in> set pre" "fits m S c"
    then have "c \<in> set ?cs" using xs by simp
    then have "?min \<le> size_at m c" by (intro Min_le) auto
    moreover from pre c have "size_at m c \<noteq> ?min" by blast
    ultimately show "size_at m a < size_at m c" using a(3) by (simp add: less_le)
  qed
  with xs show ?thesis by blast
qed

text \<open>
  Claim C7. On a chain that ends in \<^verbatim>\<open>NULL\<close>, the best-fit build of
  \<^verbatim>\<open>findFreeBlock\<close> returns the smallest free block of size at least \<open>S\<close>, the earliest
  of several smallest; it has then visited every block of the chain, or the blocks up to
  the first free block of size exactly \<open>S\<close>. The witness is the specification's example:
  with free blocks of 10, 50 and 5 bytes a request of 6 bytes selects the block of 10.
\<close>

theorem best_fit_selects_smallest:
  assumes "chain (mem s) (FreeList s) xs"
  shows "findFreeBlock BestFit lastp S s =
           Some (Inr ((best_fit_spec (mem s) S xs, lastp),
                      s\<lparr>num_blocks := int (best_fit_scanned (mem s) S xs)\<rparr>))"
  using best_fit_loop_chain [OF assms, where best = None and pre = "[]" and S = S and nb = 0]
  by (simp add: findFreeBlock_def bind_res_def best_fit_spec_def)

theorem best_fit_selects_smallest_witness:
  "chain (mem three_free_blocks) (FreeList three_free_blocks) [Arena 4096, Arena 4130, Arena 4204]
   \<and> findFreeBlock BestFit None 6 three_free_blocks
       = Some (Inr ((Some (Arena 4096), None), three_free_blocks\<lparr>num_blocks := 3\<rparr>))"
proof -
  have c: "chain (mem three_free_blocks) (FreeList three_free_blocks)
             [Arena 4096, Arena 4130, Arena 4204]"
    by (simp add: three_free_blocks_def empty_heap_def)
  have "best_fit_spec (mem three_free_blocks) 6 [Arena 4096, Arena 4130, Arena 4204] = Some (Arena 4096)"
    by (simp add: three_free_blocks_def empty_heap_def best_fit_spec_def earliest_smallest_def
        fits_def size_at_def)
  moreover have "best_fit_scanned (mem three_free_blocks) 6 [Arena 4096, Arena 4130, Arena 4204] = 3"
    by (simp add: three_free_blocks_def empty_heap_def best_fit_scanned_def fits_def size_at_def)
  ultimately show ?thesis
    using c best_fit_selects_smallest [OF c, of None 6] by simp
qed

section \<open>Chains end, so they do not repeat a block\<close>

lemma chain_unique:
  assumes "chain m p xs" and "chain m p ys"
  shows "xs = ys"
  using assms
proof (induction xs arbitrary: p ys)
  case Nil
  then show ?case by (cases ys) auto
next
  case (Cons x xs)
  then show ?case by (cases ys) (auto split: option.splits)
qed

lemma chain_suffix:
  assumes "chain m p (xs @ y # ys)"
  shows "chain m (Some y) (y # ys)"
  using assms
proof (induction xs arbitrary: p)
  case Nil
  then show ?case by simp
next
  case (Cons x xs)
  from Cons.prems obtain q where "chain m q (xs @ y # ys)"
    by (auto split: option.splits)
  then show ?case by (rule Cons.IH)
qed

lemma chain_distinct:
  assumes "chain m p xs"
  shows "distinct xs"
  using assms
proof (induction xs arbitrary: p)
  case Nil
  then show ?case by simp
next
  case (Cons x xs)
  from Cons.prems obtain b where b: "m x = Some b" and ch: "chain m (next_b b) xs"
    by (auto split: option.splits)
  have "x \<notin> set xs"
  proof
    assume "x \<in> set xs"
    then obtain us vs where xs: "xs = us @ x # vs" by (auto simp: in_set_conv_decomp)
    with ch have "chain m (next_b b) (us @ x # vs)" by simp
    then have "chain m (Some x) (x # vs)" by (rule chain_suffix)
    moreover from Cons.prems have "chain m (Some x) (x # xs)" by simp
    ultimately have "x # vs = x # xs" by (rule chain_unique)
    with xs show False by simp
  qed
  with Cons.IH [OF ch] show ?case by simp
qed

section \<open>Next fit\<close>

lemma next_fit_loop_chain:
  assumes "chain m p xs"
  shows "next_fit_loop m S p lastp nb =
           Some (Inr (find (fits m S) xs,
                      (case takeWhile (\<lambda>a. \<not> fits m S a) xs of [] \<Rightarrow> lastp | y # ys \<Rightarrow> Some (last (y # ys))),
                      nb + int (length (takeWhile (\<lambda>a. \<not> fits m S a) xs))))"
  using assms
proof (induction xs arbitrary: p lastp nb)
  case Nil
  then show ?case by (subst next_fit_loop.simps) simp
next
  case (Cons x xs)
  from Cons.prems obtain b where p: "p = Some x" and b: "m x = Some b"
    and ch: "chain m (next_b b) xs"
    by (auto split: option.splits)
  have fx: "fits m S x = (free_b b \<and> S \<le> size_b b)"
    using b by (simp add: fits_def)
  show ?case
  proof (cases "fits m S x")
    case True
    then show ?thesis
      unfolding p using b fx by (subst next_fit_loop.simps) simp
  next
    case False
    then have "next_fit_loop m S p lastp nb = next_fit_loop m S (next_b b) (Some x) (nb + 1)"
      unfolding p using b fx by (subst next_fit_loop.simps) auto
    then show ?thesis
      using False by (simp add: Cons.IH [OF ch] split: list.splits)
  qed
qed

lemma cursor_advanced_eq:
  "cursor_advanced =
     \<lparr>mem = [Arena 4096 \<mapsto> \<lparr>size_b = 8, next_b = Some (Arena 4128), free_b = True, dirty_b = True\<rparr>,
             Arena 4128 \<mapsto> \<lparr>size_b = 8, next_b = None, free_b = False, dirty_b = True\<rparr>],
      FreeList = Some (Arena 4096), Final = Some (Arena 4128), atexit_registered = 1,
      num_mallocs = 3, num_frees = 2, num_reuses = 1, num_grows = 2, num_splits = 0,
      num_coalesces = 0, num_blocks = 1, num_requested = 24, max_heap = 8,
      brk = 4160, brk_max = 8192\<rparr>"
  by (simp add: cursor_advanced_def state_after_def run_eval ALIGN4_values fun_upd_twist)

text \<open>
  Claim C5, as the code has it. A next-fit search starts at the cursor, or at the head of
  the chain when the cursor is null. With \<open>xs\<close> the blocks from there to the tail and
  \<open>pre\<close> the blocks before them, the search returns the first block of \<open>xs\<close> that
  fits, or \<^verbatim>\<open>NULL\<close> when none does, without going back to the head; it never returns a
  block of \<open>pre\<close>, free or not; and it leaves the cursor on the block it returns, which is
  \<^verbatim>\<open>NULL\<close> after a miss.
\<close>

theorem next_fit_search_from_cursor:
  assumes "chain (mem s) (FreeList s) (pre @ xs)"
    and "chain (mem s) (next_fit_start s) xs"
  shows "findFreeBlock NextFit lastp S s =
           Some (Inr ((find (fits (mem s) S) xs,
                       (case takeWhile (\<lambda>a. \<not> fits (mem s) S a) xs of
                          [] \<Rightarrow> lastp
                        | y # ys \<Rightarrow> Some (last (y # ys)))),
                      s\<lparr>num_blocks := int (length (takeWhile (\<lambda>a. \<not> fits (mem s) S a) xs)),
                        Final := find (fits (mem s) S) xs\<rparr>))
         \<and> (\<forall>a\<in>set pre. find (fits (mem s) S) xs \<noteq> Some a)"
proof
  show "findFreeBlock NextFit lastp S s =
           Some (Inr ((find (fits (mem s) S) xs,
                       (case takeWhile (\<lambda>a. \<not> fits (mem s) S a) xs of
                          [] \<Rightarrow> lastp
                        | y # ys \<Rightarrow> Some (last (y # ys)))),
                      s\<lparr>num_blocks := int (length (takeWhile (\<lambda>a. \<not> fits (mem s) S a) xs)),
                        Final := find (fits (mem s) S) xs\<rparr>))"
    using next_fit_loop_chain [OF assms(2), of S lastp 0]
    by (auto simp: findFreeBlock_def bind_res_def next_fit_start_def Let_def)
  have "distinct (pre @ xs)" using assms(1) by (rule chain_distinct)
  then show "\<forall>a\<in>set pre. find (fits (mem s) S) xs \<noteq> Some a"
    by (auto simp: find_Some_iff)
qed

theorem next_fit_search_from_cursor_witness:
  "chain (mem cursor_advanced) (FreeList cursor_advanced) ([Arena 4096] @ [Arena 4128])
   \<and> chain (mem cursor_advanced) (next_fit_start cursor_advanced) [Arena 4128]
   \<and> fits (mem cursor_advanced) 8 (Arena 4096)
   \<and> findFreeBlock NextFit None 8 cursor_advanced
       = Some (Inr ((None, Some (Arena 4128)), cursor_advanced\<lparr>num_blocks := 1, Final := None\<rparr>))"
proof -
  have 1: "chain (mem cursor_advanced) (FreeList cursor_advanced) ([Arena 4096] @ [Arena 4128])"
    and 2: "chain (mem cursor_advanced) (next_fit_start cursor_advanced) [Arena 4128]"
    and 3: "fits (mem cursor_advanced) 8 (Arena 4096)"
    and 4: "\<not> fits (mem cursor_advanced) 8 (Arena 4128)"
    by (simp_all add: cursor_advanced_eq next_fit_start_def fits_def)
  from next_fit_search_from_cursor [OF 1 2, of None 8] 1 2 3 4 show ?thesis
    by simp
qed

text \<open>
  Claim C5 as stated fails: a miss leaves the cursor null, and the search after it starts
  at the head again. In \<open>cursor_advanced\<close> the cursor is on the second block and the first
  block is free. The next request misses (the heap grows by a third block at 4160) and
  resets the cursor; the request after that returns the first block, which lies before
  the block the cursor had advanced to.
\<close>

theorem next_fit_selects_block_before_cursor:
  "run NextFit [Malloc 8, Malloc 8, Free (Some (Arena 4152)), Malloc 8, Free (Some (Arena 4120))]
     (empty_heap 4096 8192) = Some (Inr cursor_advanced)
   \<and> chain (mem cursor_advanced) (FreeList cursor_advanced) [Arena 4096, Arena 4128]
   \<and> Final cursor_advanced = Some (Arena 4128)
   \<and> fits (mem cursor_advanced) 8 (Arena 4096)
   \<and> returned (malloc NextFit 8 cursor_advanced) = Some (Inr (Some (BLOCK_DATA (Arena 4160))))
   \<and> Final (state_after NextFit [Malloc 8] cursor_advanced) = None
   \<and> returned (malloc NextFit 8 (state_after NextFit [Malloc 8] cursor_advanced))
       = Some (Inr (Some (BLOCK_DATA (Arena 4096))))"
  by (simp add: cursor_advanced_def state_after_def returned_def run_eval ALIGN4_values fits_def)

section \<open>What each function does to the counters\<close>

lemma findFreeBlock_counters:
  assumes "findFreeBlock pol l sz s = Some (Inr (r, s'))"
  shows "num_mallocs s' = num_mallocs s" and "num_frees s' = num_frees s"
    and "num_reuses s' = num_reuses s" and "num_grows s' = num_grows s"
    and "num_splits s' = num_splits s" and "num_coalesces s' = num_coalesces s"
    and "num_requested s' = num_requested s" and "max_heap s' = max_heap s"
    and "mem s' = mem s"
  using assms
  by (cases pol; auto simp: findFreeBlock_def bind_res_def Let_def
        split: option.splits sum.splits prod.splits if_splits)+

lemma coalesce_loop_count_aux:
  assumes "coalesce_loop c t m nc = Some y"
  shows "y = Inr (m', nc') \<Longrightarrow> nc \<le> nc'"
  using assms
proof (induction c t m nc y rule: coalesce_loop.raw_induct [rotated 1, consumes 1])
  case (1 loop c t m nc y)
  then show ?case
    by (fastforce split: option.splits if_splits simp: Let_def)
qed

lemma free_counters:
  assumes "free p s = Some (Inr s')"
  shows "num_mallocs s' = num_mallocs s" and "num_reuses s' = num_reuses s"
    and "num_grows s' = num_grows s" and "num_splits s' = num_splits s"
    and "num_requested s' = num_requested s" and "max_heap s' = max_heap s"
    and "num_frees s \<le> num_frees s'" and "num_coalesces s \<le> num_coalesces s'"
  using assms
  by (auto simp: free_def Let_def bind_res_def
      split: option.splits if_splits sum.splits prod.splits
      dest!: coalesce_loop_count_aux)

lemma findFreeBlock_frame:
  assumes "findFreeBlock pol l sz s = Some (Inr (r, s'))"
  shows "num_mallocs s' = num_mallocs s \<and> num_frees s' = num_frees s
       \<and> num_reuses s' = num_reuses s \<and> num_grows s' = num_grows s
       \<and> num_splits s' = num_splits s \<and> num_coalesces s' = num_coalesces s
       \<and> num_requested s' = num_requested s \<and> max_heap s' = max_heap s"
  using findFreeBlock_counters [OF assms] by simp

lemma growHeap_frame:
  assumes "growHeap l sz s = Inr (p, s')"
  shows "num_mallocs s' = num_mallocs s \<and> num_frees s' = num_frees s
       \<and> num_reuses s' = num_reuses s \<and> num_splits s' = num_splits s
       \<and> num_coalesces s' = num_coalesces s \<and> num_requested s' = num_requested s
       \<and> (num_grows s' = num_grows s \<or> num_grows s' = num_grows s + 1)
       \<and> (max_heap s' = max_heap s
            \<or> (size_t_of_int (max_heap s) < sz \<and> max_heap s' = int_of_size_t sz))"
  using assms unfolding growHeap_def sbrk_def Let_def
  by (auto split: if_splits option.splits sum.splits prod.splits)

lemma malloc_frame:
  assumes "malloc pol n s = Some (Inr (p, s'))"
  shows "num_frees s' = num_frees s \<and> num_coalesces s' = num_coalesces s
       \<and> num_mallocs s \<le> num_mallocs s' \<and> num_reuses s \<le> num_reuses s'
       \<and> num_grows s \<le> num_grows s' \<and> num_splits s \<le> num_splits s'
       \<and> num_requested s' =
           (if p = None then num_requested s
            else int_of_size_t (size_t_of_int (num_requested s) + ALIGN4 n))
       \<and> (max_heap s' = max_heap s
            \<or> (size_t_of_int (max_heap s) < ALIGN4 n \<and> max_heap s' = int_of_size_t (ALIGN4 n)))"
proof (cases "ALIGN4 n = 0")
  case True
  with assms show ?thesis
    by (auto simp: malloc_def Let_def split: if_splits)
next
  case False
  define s1 where "s1 = (if atexit_registered s = 0 then s\<lparr>atexit_registered := 1\<rparr> else s)"
  have s1: "num_frees s1 = num_frees s" "num_coalesces s1 = num_coalesces s"
    "num_mallocs s1 = num_mallocs s" "num_reuses s1 = num_reuses s"
    "num_grows s1 = num_grows s" "num_splits s1 = num_splits s"
    "num_requested s1 = num_requested s" "max_heap s1 = max_heap s"
    by (simp_all add: s1_def)
  from assms False obtain nx lst s2 where
    ff: "findFreeBlock pol (FreeList s1) (ALIGN4 n) s1 = Some (Inr ((nx, lst), s2))"
    by (auto simp: malloc_def Let_def bind_res_def s1_def split: option.splits sum.splits)
  note f2 = findFreeBlock_frame [OF ff, unfolded s1]
  show ?thesis
    using assms False f2 unfolding malloc_def Let_def s1_def [symmetric] ff
    by (auto simp: bind_res_def split: option.splits if_splits sum.splits prod.splits
        dest!: growHeap_frame)
qed

lemma malloc_counters:
  assumes "malloc pol n s = Some (Inr (p, s'))"
  shows "num_frees s' = num_frees s" and "num_coalesces s' = num_coalesces s"
    and "num_mallocs s \<le> num_mallocs s'" and "num_reuses s \<le> num_reuses s'"
    and "num_grows s \<le> num_grows s'" and "num_splits s \<le> num_splits s'"
    and "num_requested s' =
           (if p = None then num_requested s
            else int_of_size_t (size_t_of_int (num_requested s) + ALIGN4 n))"
    and "max_heap s' = max_heap s
         \<or> (size_t_of_int (max_heap s) < ALIGN4 n \<and> max_heap s' = int_of_size_t (ALIGN4 n))"
  using malloc_frame [OF assms] by simp_all

section \<open>Double free with calls in between\<close>

text \<open>
  Calls between the two calls of \<^verbatim>\<open>free(p)\<close>: a \<^verbatim>\<open>free\<close> of any pointer keeps every flag that is set, and a
  \<^verbatim>\<open>malloc\<close> keeps the flag of every block but the one it returns. So the second
  \<^verbatim>\<open>free(p)\<close> aborts as well after a \<^verbatim>\<open>free\<close> in between, or a \<^verbatim>\<open>malloc\<close> that did
  not hand out \<open>p\<close> again.
\<close>

lemma BLOCK_DATA_HEADER: "BLOCK_DATA (BLOCK_HEADER p) = p"
  by (cases p) simp_all

lemma BLOCK_DATA_inject: "BLOCK_DATA a = BLOCK_DATA b \<longleftrightarrow> a = b"
  by (cases a; cases b) simp_all

lemma free_keeps_free_flags:
  assumes "free q s = Some (Inr s1)" and "mem s a = Some b" and "free_b b"
  shows "\<exists>b'. mem s1 a = Some b' \<and> free_b b'"
proof -
  have "map_option free_b (mem s1 a) = Some True"
    using assms
    by (auto simp: free_def Let_def bind_res_def split: option.splits if_splits sum.splits
        dest!: coalesce_loop_free_flags [where a = a])
  then show ?thesis by auto
qed

lemma growHeap_keeps_free_flags:
  assumes "growHeap l sz s = Inr (q, s')" and "mem s a = Some b" and "free_b b"
    and "q \<noteq> Some a"
  shows "\<exists>b'. mem s' a = Some b' \<and> free_b b'"
  using assms unfolding growHeap_def sbrk_def Let_def
  by (auto split: if_splits option.splits sum.splits prod.splits)

lemma malloc_keeps_other_free_flags:
  assumes "malloc pol n s = Some (Inr (q, s'))" and "mem s a = Some b" and "free_b b"
    and "q \<noteq> Some (BLOCK_DATA a)"
  shows "\<exists>b'. mem s' a = Some b' \<and> free_b b'"
proof (cases "ALIGN4 n = 0")
  case True
  with assms show ?thesis
    by (auto simp: malloc_def Let_def split: if_splits)
next
  case False
  define s1 where "s1 = (if atexit_registered s = 0 then s\<lparr>atexit_registered := 1\<rparr> else s)"
  have s1: "mem s1 = mem s" by (simp add: s1_def)
  from assms(1) False obtain nx lst s2 where
    ff: "findFreeBlock pol (FreeList s1) (ALIGN4 n) s1 = Some (Inr ((nx, lst), s2))"
    by (auto simp: malloc_def Let_def bind_res_def s1_def split: option.splits sum.splits)
  have m2: "mem s2 = mem s" using findFreeBlock_counters(9) [OF ff] s1 by simp
  show ?thesis
    using assms False m2 unfolding malloc_def Let_def s1_def [symmetric] ff
    by (auto simp: bind_res_def BLOCK_DATA_inject
        split: option.splits if_splits sum.splits prod.splits
        dest!: growHeap_keeps_free_flags [where a = a and b = b])
qed

lemma double_free_after_malloc:
  assumes "free (Some p) s = Some (Inr s1)"
    and "malloc pol n s1 = Some (Inr (q, s2))" and "q \<noteq> Some p"
  shows "free (Some p) s2 = Some (Inl AssertFail)"
proof -
  from free_marks_block [OF assms(1)]
  obtain b where b: "mem s1 (BLOCK_HEADER p) = Some b" "free_b b" by auto
  from assms(3) have "q \<noteq> Some (BLOCK_DATA (BLOCK_HEADER p))"
    by (simp add: BLOCK_DATA_HEADER)
  from malloc_keeps_other_free_flags [OF assms(2) b this]
  obtain b' where "mem s2 (BLOCK_HEADER p) = Some b'" "free_b b'" by auto
  then show ?thesis by (rule free_asserts_block_busy)
qed

lemma double_free_after_free:
  assumes "free (Some p) s = Some (Inr s1)"
    and "free q s1 = Some (Inr s2)"
  shows "free (Some p) s2 = Some (Inl AssertFail)"
proof -
  from free_marks_block [OF assms(1)]
  obtain b where b: "mem s1 (BLOCK_HEADER p) = Some b" "free_b b" by auto
  from free_keeps_free_flags [OF assms(2) b]
  obtain b' where "mem s2 (BLOCK_HEADER p) = Some b'" "free_b b'" by auto
  then show ?thesis by (rule free_asserts_block_busy)
qed

section \<open>Conversions between \<^verbatim>\<open>int\<close> and \<^verbatim>\<open>size_t\<close>\<close>

lemma int_of_size_t_word_of_int:
  assumes "- (2 ^ 31) \<le> k" and "k < 2 ^ 31"
  shows "int_of_size_t (word_of_int k) = k"
proof -
  have "sint (ucast (word_of_int k :: 64 word) :: 32 word) = signed_take_bit 31 k"
    by (simp add: signed_ucast_eq signed_of_int signed_take_bit_take_bit unsigned_of_int)
  then show ?thesis
    using assms by (simp add: int_of_size_t_def signed_take_bit_int_eq_self)
qed

lemma int_of_size_t_small:
  assumes "uint a < 2 ^ 31"
  shows "int_of_size_t a = uint a"
proof -
  have "int_of_size_t (word_of_int (uint a)) = uint a"
  proof (rule int_of_size_t_word_of_int)
    show "- (2 ^ 31) \<le> uint a" by (rule order_trans [where y = 0]) simp_all
    show "uint a < 2 ^ 31" by (rule assms)
  qed
  then show ?thesis by simp
qed

lemma requested_add:
  assumes "0 \<le> nr" and "nr + uint a < 2 ^ 31"
  shows "int_of_size_t (size_t_of_int nr + a) = nr + uint a"
proof -
  have "size_t_of_int nr + a = word_of_int (nr + uint a)"
    by (simp add: size_t_of_int_def)
  moreover have "int_of_size_t (word_of_int (nr + uint a)) = nr + uint a"
  proof (rule int_of_size_t_word_of_int)
    show "- (2 ^ 31) \<le> nr + uint a"
    proof (rule order_trans [where y = 0])
      show "0 \<le> nr + uint a" using assms(1) by simp
    qed simp
    show "nr + uint a < 2 ^ 31" by (rule assms)
  qed
  ultimately show ?thesis by simp
qed

lemma max_heap_less:
  assumes "0 \<le> mh" and "mh < 2 ^ 31" and "size_t_of_int mh < a"
  shows "mh < uint a"
proof -
  have "uint (word_of_int mh :: 64 word) = mh"
    using assms(1,2) by (simp add: uint_word_of_int_eq take_bit_int_eq_self)
  then show ?thesis
    using assms(3) by (simp add: size_t_of_int_def word_less_def)
qed

lemma ALIGN4_more_values:
  "ALIGN4 5 = 8" "ALIGN4 10 = 12" "ALIGN4 20 = 20" "ALIGN4 18446744073709551615 = 0"
  "ALIGN4 2147483648 = 2147483648"
  by code_simp+

section \<open>Rounding of the requested size\<close>

lemma ALIGN4_unat_in_range:
  assumes "0 < unat n" and "unat n \<le> 2 ^ 64 - 4"
  shows "unat (ALIGN4 n) = (unat n - 1) div 4 * 4 + 4"
proof -
  have "n \<noteq> 0" using assms(1) by auto
  then have "unat (n - 1) = unat n - 1" by (simp add: unat_minus_one)
  moreover have "(unat n - 1) div 4 * 4 + 4 < 2 ^ 64"
    using assms by simp
  ultimately show ?thesis
    by (simp add: ALIGN4_unat)
qed

lemma ALIGN4_multiple: "4 dvd unat (ALIGN4 n)"
proof -
  have "(4::nat) dvd 2 ^ 64" by simp
  moreover have "(4::nat) dvd unat (n - 1) div 4 * 4 + 4" by simp
  ultimately show ?thesis
    unfolding ALIGN4_unat by (simp only: dvd_mod_iff)
qed

lemma ALIGN4_idem: "ALIGN4 (ALIGN4 n) = ALIGN4 n"
proof (cases "ALIGN4 n = 0")
  case True
  then show ?thesis by (simp add: ALIGN4_zero)
next
  case False
  let ?a = "unat (ALIGN4 n)"
  from False have pos: "0 < ?a" by (simp add: unat_gt_0)
  from ALIGN4_multiple [of n] obtain k where k: "?a = 4 * k" by (auto simp: dvd_def)
  have "?a < 2 ^ 64" using unsigned_less [of "ALIGN4 n"] by simp
  with k have "?a \<le> 2 ^ 64 - 4" by simp
  from ALIGN4_unat_in_range [OF pos this] k pos
  have "unat (ALIGN4 (ALIGN4 n)) = ?a" by presburger
  then show ?thesis by (simp only: word_unat_eq_iff)
qed

text \<open>
  Claim C8, as the code has it. For a request of \<open>n\<close> bytes with \<open>1 \<le> n \<le> 2\<^sup>6\<^sup>4 - 4\<close>,
  \<^verbatim>\<open>ALIGN4(n)\<close> is the smallest multiple of 4 that is at least \<open>n\<close>; \<^verbatim>\<open>malloc\<close> sees the
  request only through this value (a request of \<open>n\<close> bytes and one of \<^verbatim>\<open>ALIGN4(n)\<close>
  bytes are the same call); and when the call returns a block, \<^verbatim>\<open>num_requested\<close> is its
  old value plus the aligned size, converted to \<^verbatim>\<open>int\<close>, which is the exact sum whenever
  the sum is below \<open>2\<^sup>3\<^sup>1\<close>.
\<close>

theorem malloc_aligns_request:
  assumes "0 < unat n" and "unat n \<le> 2 ^ 64 - 4"
  shows "4 dvd unat (ALIGN4 n) \<and> unat n \<le> unat (ALIGN4 n)
       \<and> (\<forall>k. 4 dvd k \<and> unat n \<le> k \<longrightarrow> unat (ALIGN4 n) \<le> k)
       \<and> malloc pol n s = malloc pol (ALIGN4 n) s
       \<and> (\<forall>p s'. malloc pol n s = Some (Inr (Some p, s')) \<longrightarrow>
             num_requested s' = int_of_size_t (size_t_of_int (num_requested s) + ALIGN4 n)
             \<and> (0 \<le> num_requested s \<and> num_requested s + uint (ALIGN4 n) < 2 ^ 31
                  \<longrightarrow> num_requested s' = num_requested s + uint (ALIGN4 n)))"
proof (intro conjI allI impI)
  note a = ALIGN4_unat_in_range [OF assms]
  show "4 dvd unat (ALIGN4 n)" by (rule ALIGN4_multiple)
  show "unat n \<le> unat (ALIGN4 n)" using assms(1) unfolding a by presburger
  show "unat (ALIGN4 n) \<le> k" if "4 dvd k \<and> unat n \<le> k" for k
    using that assms(1) unfolding a by presburger
  show "malloc pol n s = malloc pol (ALIGN4 n) s"
    by (simp add: malloc_def ALIGN4_idem)
  show "num_requested s' = int_of_size_t (size_t_of_int (num_requested s) + ALIGN4 n)"
    if "malloc pol n s = Some (Inr (Some p, s'))" for p s'
    using malloc_counters(7) [OF that] by simp
  show "num_requested s' = num_requested s + uint (ALIGN4 n)"
    if "malloc pol n s = Some (Inr (Some p, s'))"
      and "0 \<le> num_requested s \<and> num_requested s + uint (ALIGN4 n) < 2 ^ 31" for p s'
    using malloc_counters(7) [OF that(1)] that(2) by (simp add: requested_add)
qed

theorem malloc_aligns_request_witness:
  "unat (ALIGN4 5) = 8
   \<and> malloc FirstFit 5 (empty_heap 4096 8192) = malloc FirstFit 8 (empty_heap 4096 8192)
   \<and> returned (malloc FirstFit 5 (empty_heap 4096 8192)) = Some (Inr (Some (Arena 4120)))
   \<and> num_requested (state_after FirstFit [Malloc 5] (empty_heap 4096 8192)) = 8"
proof -
  note t = malloc_aligns_request [of 5 FirstFit "empty_heap 4096 8192"]
  have h: "0 < unat (5 :: size_t)" "unat (5 :: size_t) \<le> 2 ^ 64 - 4" by simp_all
  from t [OF h] have "4 dvd unat (ALIGN4 5)" "5 \<le> unat (ALIGN4 5)" "unat (ALIGN4 5) \<le> 8"
    by simp_all
  then have a: "unat (ALIGN4 5) = 8" by presburger
  have "ALIGN4 5 = (8 :: size_t)"
    by (subst word_unat_eq_iff) (simp add: a)
  with t [OF h] have "malloc FirstFit 5 (empty_heap 4096 8192) = malloc FirstFit 8 (empty_heap 4096 8192)"
    by simp
  moreover have "returned (malloc FirstFit 5 (empty_heap 4096 8192)) = Some (Inr (Some (Arena 4120)))"
    "num_requested (state_after FirstFit [Malloc 5] (empty_heap 4096 8192)) = 8"
    by (simp_all add: returned_def state_after_def run_eval ALIGN4_more_values)
  ultimately show ?thesis using a by simp
qed

text \<open>
  Claim C8 as stated fails at both ends. For \<open>n = 2\<^sup>6\<^sup>4 - 1\<close> the macro wraps around to
  0, which is not at least \<open>n\<close>, and \<^verbatim>\<open>malloc\<close> returns \<^verbatim>\<open>NULL\<close>. For a request of
  \<open>2\<^sup>3\<^sup>1\<close> bytes that the system grants, the \<^verbatim>\<open>int\<close> counter goes from 0 to \<open>- 2\<^sup>3\<^sup>1\<close>.
\<close>

theorem align_wraps_and_counter_truncates:
  "0 < unat (18446744073709551615 :: size_t)
   \<and> ALIGN4 18446744073709551615 = 0
   \<and> returned (malloc FirstFit 18446744073709551615 (empty_heap 4096 8192)) = Some (Inr None)
   \<and> returned (malloc FirstFit 2147483648 (empty_heap 4096 4294967296))
       = Some (Inr (Some (Arena 4120)))
   \<and> num_requested (empty_heap 4096 4294967296) = 0
   \<and> ALIGN4 2147483648 = 2147483648
   \<and> num_requested (state_after FirstFit [Malloc 2147483648] (empty_heap 4096 4294967296))
       = - 2147483648"
  by (simp add: returned_def state_after_def run_eval ALIGN4_more_values)

section \<open>The statistics counters over sequences of calls\<close>

lemma exec_event_counters:
  assumes "exec pol c s = Some (Inr s1)"
  shows "num_mallocs s \<le> num_mallocs s1 \<and> num_frees s \<le> num_frees s1
       \<and> num_reuses s \<le> num_reuses s1 \<and> num_grows s \<le> num_grows s1
       \<and> num_splits s \<le> num_splits s1 \<and> num_coalesces s \<le> num_coalesces s1"
proof (cases c)
  case (Malloc n)
  with assms obtain p where "malloc pol n s = Some (Inr (p, s1))"
    by (auto simp: exec_def bind_res_def split: option.splits sum.splits)
  from malloc_frame [OF this] show ?thesis by simp
next
  case (Free p)
  with assms have "free p s = Some (Inr s1)" by (simp add: exec_def)
  from free_counters [OF this] show ?thesis by simp
qed

lemma exec_size_counters:
  assumes "exec pol c s = Some (Inr s1)"
    and "0 \<le> num_requested s" and "0 \<le> max_heap s" and "max_heap s < 2 ^ 31"
    and "num_requested s + requested_total [c] < 2 ^ 31"
  shows "num_requested s \<le> num_requested s1
       \<and> num_requested s1 \<le> num_requested s + requested_total [c]
       \<and> max_heap s \<le> max_heap s1 \<and> max_heap s1 < 2 ^ 31"
proof (cases c)
  case (Malloc n)
  with assms(1) obtain p where "malloc pol n s = Some (Inr (p, s1))"
    by (auto simp: exec_def bind_res_def split: option.splits sum.splits)
  note m = malloc_counters [OF this]
  from assms(5) Malloc have sum: "num_requested s + uint (ALIGN4 n) < 2 ^ 31" by simp
  have a0: "0 \<le> uint (ALIGN4 n)" by simp
  from sum assms(2) a0 have small: "uint (ALIGN4 n) < 2 ^ 31" by linarith
  have "num_requested s1 = num_requested s \<or> num_requested s1 = num_requested s + uint (ALIGN4 n)"
    using m(7) requested_add [OF assms(2) sum] by (simp split: if_splits)
  moreover have "max_heap s1 = max_heap s \<or> (max_heap s < uint (ALIGN4 n) \<and> max_heap s1 = uint (ALIGN4 n))"
    using m(8) max_heap_less [OF assms(3,4)] int_of_size_t_small [OF small] by auto
  ultimately show ?thesis
    using assms(2,3,4) a0 small Malloc by auto
next
  case (Free p)
  with assms(1) have "free p s = Some (Inr s1)" by (simp add: exec_def)
  from free_counters [OF this] assms show ?thesis by (simp add: Free)
qed

lemma run_size_counters:
  assumes "run pol cs s = Some (Inr s')"
    and "0 \<le> num_requested s" and "0 \<le> max_heap s" and "max_heap s < 2 ^ 31"
    and "num_requested s + requested_total cs < 2 ^ 31"
  shows "num_requested s \<le> num_requested s'
       \<and> num_requested s' \<le> num_requested s + requested_total cs
       \<and> max_heap s \<le> max_heap s' \<and> max_heap s' < 2 ^ 31"
  using assms
proof (induction cs arbitrary: s)
  case Nil
  then show ?case by simp
next
  case (Cons c cs)
  from Cons.prems(1) obtain s1 where e: "exec pol c s = Some (Inr s1)"
    and r: "run pol cs s1 = Some (Inr s')"
    by (auto simp: bind_res_def split: option.splits sum.splits)
  have tot: "requested_total (c # cs) = requested_total [c] + requested_total cs"
    by (cases c) simp_all
  have nn: "0 \<le> requested_total cs" for cs
    by (induction cs rule: requested_total.induct) simp_all
  from Cons.prems(5) tot nn [of cs] have "num_requested s + requested_total [c] < 2 ^ 31"
    by linarith
  note st = exec_size_counters [OF e Cons.prems(2,3,4) this]
  from st Cons.prems(2,5) tot have "0 \<le> num_requested s1"
    "0 \<le> max_heap s1" "max_heap s1 < 2 ^ 31"
    "num_requested s1 + requested_total cs < 2 ^ 31"
    using Cons.prems(3) by linarith+
  from Cons.IH [OF r this] st tot show ?case by linarith
qed

lemma run_event_counters:
  assumes "run pol cs s = Some (Inr s')"
  shows "num_mallocs s \<le> num_mallocs s' \<and> num_frees s \<le> num_frees s'
       \<and> num_reuses s \<le> num_reuses s' \<and> num_grows s \<le> num_grows s'
       \<and> num_splits s \<le> num_splits s' \<and> num_coalesces s \<le> num_coalesces s'"
  using assms
proof (induction cs arbitrary: s)
  case Nil
  then show ?case by simp
next
  case (Cons c cs)
  from Cons.prems(1) obtain s1 where e: "exec pol c s = Some (Inr s1)"
    and r: "run pol cs s1 = Some (Inr s')"
    by (auto simp: bind_res_def split: option.splits sum.splits)
  from exec_event_counters [OF e] Cons.IH [OF r] show ?case by linarith
qed

lemma run_append: "run pol (cs1 @ cs2) s = bind_res (run pol cs1 s) (run pol cs2)"
  by (induction cs1 arbitrary: s) (auto simp: bind_res_def split: option.splits sum.splits)

text \<open>In the model no event counter is larger in a state of a run than in the final
  state: a bound on the final values bounds every increment of the run.\<close>

lemma run_intermediate_event_counters:
  assumes "run pol (cs1 @ cs2) s = Some (Inr s')"
  shows "\<exists>s1. run pol cs1 s = Some (Inr s1) \<and> run pol cs2 s1 = Some (Inr s')
           \<and> num_mallocs s1 \<le> num_mallocs s' \<and> num_frees s1 \<le> num_frees s'
           \<and> num_reuses s1 \<le> num_reuses s' \<and> num_grows s1 \<le> num_grows s'
           \<and> num_splits s1 \<le> num_splits s' \<and> num_coalesces s1 \<le> num_coalesces s'"
proof -
  from assms obtain s1 where 1: "run pol cs1 s = Some (Inr s1)"
    and 2: "run pol cs2 s1 = Some (Inr s')"
    by (auto simp: run_append bind_res_def split: option.splits sum.splits)
  with run_event_counters [OF 2] show ?thesis by blast
qed

text \<open>
  Claim C9, as the code has it. Take a sequence of calls that return, in which no event
  counter passes \<^verbatim>\<open>INT_MAX\<close> (the six event counters end at \<^verbatim>\<open>INT_MAX\<close> at most, so no
  increment of the run overflowed and the program's counters are the model's). Over it
  the six event counters (allocations, frees, reuses, growths, splits, coalesces) never
  decrease. The cumulative requested bytes and the maximum growth size never decrease
  either, as long as they start as non-negative \<^verbatim>\<open>int\<close> values and the requests of the
  sequence keep the cumulative sum below \<open>2\<^sup>3\<^sup>1\<close>. Nothing is claimed of
  \<^verbatim>\<open>num_blocks\<close>, which every search resets to 0.
\<close>

theorem counters_monotone_except_blocks:
  assumes "run pol cs s = Some (Inr s')"
    and "num_mallocs s' \<le> INT_MAX" and "num_frees s' \<le> INT_MAX"
    and "num_reuses s' \<le> INT_MAX" and "num_grows s' \<le> INT_MAX"
    and "num_splits s' \<le> INT_MAX" and "num_coalesces s' \<le> INT_MAX"
  shows "num_mallocs s \<le> num_mallocs s' \<and> num_frees s \<le> num_frees s'
       \<and> num_reuses s \<le> num_reuses s' \<and> num_grows s \<le> num_grows s'
       \<and> num_splits s \<le> num_splits s' \<and> num_coalesces s \<le> num_coalesces s'
       \<and> (0 \<le> num_requested s \<and> 0 \<le> max_heap s \<and> max_heap s < 2 ^ 31
            \<and> num_requested s + requested_total cs < 2 ^ 31
          \<longrightarrow> num_requested s \<le> num_requested s' \<and> max_heap s \<le> max_heap s')"
  using run_event_counters [OF assms(1)] run_size_counters [OF assms(1)] by simp

theorem counters_monotone_except_blocks_witness:
  "run FirstFit [Malloc 10, Malloc 20, Free (Some (Arena 4120)), Malloc 8] (empty_heap 4096 8192)
     = Some (Inr (state_after FirstFit [Malloc 10, Malloc 20, Free (Some (Arena 4120)), Malloc 8]
                    (empty_heap 4096 8192)))
   \<and> num_mallocs (state_after FirstFit [Malloc 10, Malloc 20, Free (Some (Arena 4120)), Malloc 8]
                    (empty_heap 4096 8192)) = 3
   \<and> num_frees (state_after FirstFit [Malloc 10, Malloc 20, Free (Some (Arena 4120)), Malloc 8]
                    (empty_heap 4096 8192)) = 1
   \<and> num_reuses (state_after FirstFit [Malloc 10, Malloc 20, Free (Some (Arena 4120)), Malloc 8]
                    (empty_heap 4096 8192)) = 1
   \<and> num_grows (state_after FirstFit [Malloc 10, Malloc 20, Free (Some (Arena 4120)), Malloc 8]
                    (empty_heap 4096 8192)) = 2
   \<and> num_splits (state_after FirstFit [Malloc 10, Malloc 20, Free (Some (Arena 4120)), Malloc 8]
                    (empty_heap 4096 8192)) = 1
   \<and> num_coalesces (state_after FirstFit [Malloc 10, Malloc 20, Free (Some (Arena 4120)), Malloc 8]
                    (empty_heap 4096 8192)) = 0
   \<and> 0 \<le> num_requested (state_after FirstFit [Malloc 10, Malloc 20, Free (Some (Arena 4120)), Malloc 8]
                    (empty_heap 4096 8192))
   \<and> 0 \<le> max_heap (state_after FirstFit [Malloc 10, Malloc 20, Free (Some (Arena 4120)), Malloc 8]
                    (empty_heap 4096 8192))"
proof -
  let ?cs = "[Malloc 10, Malloc 20, Free (Some (Arena 4120)), Malloc 8]"
  let ?s = "empty_heap 4096 8192"
  have r: "run FirstFit ?cs ?s = Some (Inr (state_after FirstFit ?cs ?s))"
    and v: "num_mallocs (state_after FirstFit ?cs ?s) = 3"
      "num_frees (state_after FirstFit ?cs ?s) = 1"
      "num_reuses (state_after FirstFit ?cs ?s) = 1"
      "num_grows (state_after FirstFit ?cs ?s) = 2"
      "num_splits (state_after FirstFit ?cs ?s) = 1"
      "num_coalesces (state_after FirstFit ?cs ?s) = 0"
    by (simp_all add: state_after_def run_eval ALIGN4_more_values ALIGN4_values)
  have b: "num_mallocs (state_after FirstFit ?cs ?s) \<le> INT_MAX"
    "num_frees (state_after FirstFit ?cs ?s) \<le> INT_MAX"
    "num_reuses (state_after FirstFit ?cs ?s) \<le> INT_MAX"
    "num_grows (state_after FirstFit ?cs ?s) \<le> INT_MAX"
    "num_splits (state_after FirstFit ?cs ?s) \<le> INT_MAX"
    "num_coalesces (state_after FirstFit ?cs ?s) \<le> INT_MAX"
    by (simp_all add: v INT_MAX_def)
  have "requested_total ?cs = 40"
    by (simp add: ALIGN4_more_values ALIGN4_values)
  with counters_monotone_except_blocks [OF r b]
  have "0 \<le> num_requested (state_after FirstFit ?cs ?s)"
    "0 \<le> max_heap (state_after FirstFit ?cs ?s)"
    by (simp_all add: empty_heap_def)
  with r v show ?thesis by simp
qed

text \<open>
  Claim C9 as stated fails. \<^verbatim>\<open>num_blocks\<close> is 2 after three allocations (the third search
  walked over two busy blocks) and 0 again after the first block has been freed and
  found by the next search. And a granted request of \<open>2\<^sup>3\<^sup>1\<close> bytes takes
  \<^verbatim>\<open>num_requested\<close> and \<^verbatim>\<open>max_heap\<close> from 0 to \<open>- 2\<^sup>3\<^sup>1\<close>.
\<close>

theorem blocks_scanned_and_requested_decrease:
  "run FirstFit [Malloc 8, Malloc 8, Malloc 8] (empty_heap 4096 8192)
     = Some (Inr (state_after FirstFit [Malloc 8, Malloc 8, Malloc 8] (empty_heap 4096 8192)))
   \<and> num_blocks (state_after FirstFit [Malloc 8, Malloc 8, Malloc 8] (empty_heap 4096 8192)) = 2
   \<and> run FirstFit [Free (Some (Arena 4120)), Malloc 8]
        (state_after FirstFit [Malloc 8, Malloc 8, Malloc 8] (empty_heap 4096 8192))
     = Some (Inr (state_after FirstFit
                    [Malloc 8, Malloc 8, Malloc 8, Free (Some (Arena 4120)), Malloc 8]
                    (empty_heap 4096 8192)))
   \<and> num_blocks (state_after FirstFit
                    [Malloc 8, Malloc 8, Malloc 8, Free (Some (Arena 4120)), Malloc 8]
                    (empty_heap 4096 8192)) = 0
   \<and> run FirstFit [Malloc 2147483648] (empty_heap 4096 4294967296)
     = Some (Inr (state_after FirstFit [Malloc 2147483648] (empty_heap 4096 4294967296)))
   \<and> num_requested (empty_heap 4096 4294967296) = 0
   \<and> max_heap (empty_heap 4096 4294967296) = 0
   \<and> num_requested (state_after FirstFit [Malloc 2147483648] (empty_heap 4096 4294967296))
       = - 2147483648
   \<and> max_heap (state_after FirstFit [Malloc 2147483648] (empty_heap 4096 4294967296))
       = - 2147483648"
  by (simp add: state_after_def run_eval ALIGN4_more_values ALIGN4_values)

end
